theory Spec2Isabelle
  imports Main "HOL-Library.Word" "HOL-Library.Sublist" "HOL-Library.Multiset"
begin

section \<open>Strings and paths\<close>

text \<open>
  A Python \<open>str\<close> is modelled as a \<^typ>\<open>string\<close>: a list of 8-bit characters, read as
  the code points U+0000 to U+00FF. \<open>str.lower\<close>, \<open>str.startswith\<close>, \<open>str.lstrip\<close>,
  \<open>str.split\<close> and \<open>str.join\<close> are given on that range.
\<close>

definition startswith :: "string \<Rightarrow> string \<Rightarrow> bool" where
  "startswith s pre = (take (length pre) s = pre)"

definition lower_char :: "char \<Rightarrow> char" where
  "lower_char c =
     (let n = (of_char c :: nat)
      in if (65 \<le> n \<and> n \<le> 90) \<or> (192 \<le> n \<and> n \<le> 222 \<and> n \<noteq> 215)
         then char_of (n + 32) else c)"

definition lower :: "string \<Rightarrow> string" where
  "lower s = map lower_char s"

definition lstrip :: "string \<Rightarrow> char \<Rightarrow> string" where
  "lstrip s c = dropWhile (\<lambda>x. x = c) s"

definition isspace :: "char \<Rightarrow> bool" where
  "isspace c =
     (let n = (of_char c :: nat)
      in (9 \<le> n \<and> n \<le> 13) \<or> (28 \<le> n \<and> n \<le> 32) \<or> n = 133 \<or> n = 160)"

text \<open>
  \<open>text.split()\<close>: the maximal runs of non-whitespace characters, in order. The second
  argument is the word being read.
\<close>

fun split_from :: "string \<Rightarrow> string \<Rightarrow> string list" where
  "split_from w [] = (if w = [] then [] else [w])"
| "split_from w (c # cs) =
     (if isspace c then (if w = [] then split_from [] cs else w # split_from [] cs)
      else split_from (w @ [c]) cs)"

definition split :: "string \<Rightarrow> string list" where
  "split s = split_from [] s"

fun join :: "string \<Rightarrow> string list \<Rightarrow> string" where
  "join sep [] = []"
| "join sep [w] = w"
| "join sep (w # v # ws) = w @ sep @ join sep (v # ws)"

text \<open>
  A \<open>pathlib.Path\<close> that is absolute and resolved, as \<open>FileScanner.root\<close> and every path
  below it are: the list of its components under the anchor, outermost first. The anchor
  itself is the empty list; its \<open>name\<close> is the empty string and it is its own \<open>parent\<close>.
\<close>

type_synonym path = "string list"

definition path_name :: "path \<Rightarrow> string" where
  "path_name p = (if p = [] then [] else last p)"

definition path_parent :: "path \<Rightarrow> path" where
  "path_parent p = butlast p"

definition joinpath :: "path \<Rightarrow> string \<Rightarrow> path" where
  "joinpath p nm = p @ [nm]"

definition path_str :: "path \<Rightarrow> string" where
  "path_str p = (if p = [] then ''/'' else concat (map (\<lambda>c. CHR ''/'' # c) p))"

text \<open>
  \<open>PurePath.suffix\<close> (as pathlib defines it up to Python 3.13): with \<open>i\<close> the index of the
  last dot of the name, the suffix is \<open>name[i:]\<close> when \<open>0 < i < len(name) - 1\<close> and empty
  otherwise. \<open>rfind\<close> returns \<open>None\<close> where Python returns \<open>-1\<close>.
\<close>

fun rfind :: "string \<Rightarrow> char \<Rightarrow> nat option" where
  "rfind [] c = None"
| "rfind (x # xs) c =
     (case rfind xs c of
        Some i \<Rightarrow> Some (Suc i)
      | None \<Rightarrow> (if x = c then Some 0 else None))"

definition suffix_of_name :: "string \<Rightarrow> string" where
  "suffix_of_name nm =
     (case rfind nm (CHR ''.'') of
        None \<Rightarrow> []
      | Some i \<Rightarrow> (if 0 < i \<and> i + 1 < length nm then drop i nm else []))"

definition path_suffix :: "path \<Rightarrow> string" where
  "path_suffix p = suffix_of_name (path_name p)"

section \<open>Hidden entries\<close>

text \<open>
  \<open>FileScanner._is_hidden(name, parent)\<close>. The \<open>while True\<close> loop climbs from \<open>parent\<close>
  until \<open>p.parent == p\<close>, which holds at the anchor only.
\<close>

function is_hidden_loop :: "path \<Rightarrow> bool" where
  "is_hidden_loop p =
     (if startswith (path_name p) ''.'' then True
      else if path_parent p = p then False
      else is_hidden_loop (path_parent p))"
  by pat_completeness auto
termination
proof (relation "measure length")
  show "wf (measure length)" by simp
next
  fix p :: path
  assume "path_parent p \<noteq> p"
  then have "p \<noteq> []" by (auto simp: path_parent_def)
  then show "(path_parent p, p) \<in> measure length"
    by (simp add: path_parent_def)
qed

declare is_hidden_loop.simps [simp del]

definition is_hidden :: "string \<Rightarrow> path \<Rightarrow> bool" where
  "is_hidden nm par = (if startswith nm ''.'' then True else is_hidden_loop par)"

section \<open>Exceptions and generators\<close>

text \<open>
  The operating-system calls of the scanner (\<open>os.scandir\<close>, \<open>DirEntry.is_dir\<close>,
  \<open>DirEntry.is_file\<close>, \<open>Path.stat\<close>, \<open>open\<close>, \<open>read\<close>) raise \<open>OSError\<close> or one of its
  subclasses, and nothing else. \<open>ValueError\<close> is what \<open>datetime.fromtimestamp\<close> raises for
  a year outside 1 to 9999; it is not an \<open>OSError\<close>.
\<close>

datatype oserror =
  FileNotFoundError | PermissionError | NotADirectoryError | IsADirectoryError | OtherOSError

datatype exn = OSError oserror | ValueError

text \<open>
  A generator, run to its end: the values it yielded, and the exception that ended it
  (\<open>None\<close> when it returned).
\<close>

type_synonym 'a gen = "'a list \<times> exn option"

definition raise_gen :: "exn \<Rightarrow> 'a gen" where
  "raise_gen e = ([], Some e)"

definition return_gen :: "'a gen" where
  "return_gen = ([], None)"

definition yield :: "'a \<Rightarrow> 'a gen" where
  "yield x = ([x], None)"

text \<open>\<open>g\<close>, then \<open>h\<close> unless \<open>g\<close> raised.\<close>

definition then_gen :: "'a gen \<Rightarrow> 'a gen \<Rightarrow> 'a gen" where
  "then_gen g h = (case snd g of None \<Rightarrow> (fst g @ fst h, snd h) | Some e \<Rightarrow> g)"

text \<open>
  \<open>try: g except (PermissionError, OSError): continue\<close> (or \<open>return\<close>): what was yielded
  stays yielded, an \<open>OSError\<close> ends the block normally, any other exception goes on.
\<close>

definition except_OSError :: "'a gen \<Rightarrow> 'a gen" where
  "except_OSError g =
     (case snd g of
        Some (OSError e) \<Rightarrow> (fst g, None)
      | _ \<Rightarrow> g)"

section \<open>The filesystem\<close>

type_synonym byte = "8 word"

record stat_result =
  st_size :: int
  st_ctime :: int
  st_mtime :: int

text \<open>
  A regular file, by what the three accesses of \<open>path_to_metadata\<close> find: \<open>path.stat()\<close>;
  \<open>open(path, "rb")\<close> and the bytes a read delivers from the start; \<open>open(path, "r",
  encoding="utf-8", errors="ignore")\<close> and the characters a read delivers from the start.
  \<open>Inl e\<close> is the \<open>OSError\<close> that the open or the read raises. Timestamps are whole
  seconds since the epoch.
\<close>

record fileobj =
  os_stat :: "oserror + stat_result"
  open_rb :: "oserror + byte list"
  open_text :: "oserror + string"

text \<open>
  What a path names. A directory holds the entries \<open>os.scandir\<close> delivers, in order, and
  the \<open>OSError\<close> that breaks the listing off after them, if any. \<open>Unlistable e\<close> is a
  directory whose \<open>os.scandir\<close> raises \<open>e\<close>; \<open>Unstatable e\<close> is an entry whose type cannot
  be read (\<open>is_dir\<close> raises \<open>e\<close>); \<open>Special\<close> is a socket, FIFO or device.
\<close>

datatype fsobj =
    RegFile fileobj
  | Directory "(string \<times> fsobj) list" "oserror option"
  | Unlistable oserror
  | Symlink fsobj
  | BrokenLink
  | Special
  | Unstatable oserror

text \<open>\<open>entry.is_dir(follow_symlinks=fl)\<close>; a dangling link is not a directory.\<close>

fun is_dir :: "fsobj \<Rightarrow> bool \<Rightarrow> oserror + bool" where
  "is_dir (RegFile f) fl = Inr False"
| "is_dir (Directory es err) fl = Inr True"
| "is_dir (Unlistable e) fl = Inr True"
| "is_dir (Symlink t) fl = (if fl then is_dir t fl else Inr False)"
| "is_dir BrokenLink fl = Inr False"
| "is_dir Special fl = Inr False"
| "is_dir (Unstatable e) fl = Inl e"

text \<open>
  \<open>entry.is_file(follow_symlinks=fl)\<close>: \<open>Some f\<close> stands for \<open>True\<close>, with \<open>f\<close> the regular
  file that later accesses of the entry's path reach; \<open>None\<close> stands for \<open>False\<close>.
\<close>

fun is_file :: "fsobj \<Rightarrow> bool \<Rightarrow> oserror + fileobj option" where
  "is_file (RegFile f) fl = Inr (Some f)"
| "is_file (Directory es err) fl = Inr None"
| "is_file (Unlistable e) fl = Inr None"
| "is_file (Symlink t) fl = (if fl then is_file t fl else Inr None)"
| "is_file BrokenLink fl = Inr None"
| "is_file Special fl = Inr None"
| "is_file (Unstatable e) fl = Inl e"

text \<open>\<open>os.path.islink(entry.path)\<close>.\<close>

fun islink :: "fsobj \<Rightarrow> bool" where
  "islink (Symlink t) = True"
| "islink BrokenLink = True"
| "islink _ = False"

text \<open>\<open>os.scandir(directory)\<close>, which follows a link to its target.\<close>

fun scandir :: "fsobj \<Rightarrow> oserror + (string \<times> fsobj) list \<times> oserror option" where
  "scandir (Directory es err) = Inr (es, err)"
| "scandir (Unlistable e) = Inl e"
| "scandir (Symlink t) = scandir t"
| "scandir BrokenLink = Inl FileNotFoundError"
| "scandir (RegFile f) = Inl NotADirectoryError"
| "scandir Special = Inl NotADirectoryError"
| "scandir (Unstatable e) = Inl e"

text \<open>
  The filesystem: what each absolute path names, \<open>None\<close> where nothing exists.
\<close>

type_synonym filesystem = "path \<Rightarrow> fsobj option"

section \<open>The scanner\<close>

record FileScanner =
  root :: path
  include_hidden :: bool
  follow_symlinks :: bool

text \<open>
  \<open>FileScanner.__init__\<close>. The path \<open>rt\<close> is \<open>Path(root).expanduser().resolve()\<close>, and
  \<open>self.root.exists()\<close> is whether the filesystem holds something there.
\<close>

definition FileScanner_init :: "filesystem \<Rightarrow> path \<Rightarrow> bool \<Rightarrow> bool \<Rightarrow> exn + FileScanner" where
  "FileScanner_init fs rt hidden follow =
     (if fs rt = None then Inl (OSError FileNotFoundError)
      else Inr \<lparr>root = rt, include_hidden = hidden, follow_symlinks = follow\<rparr>)"

lemma scandir_size:
  "scandir obj = Inr (es, err) \<Longrightarrow> size_list (size_prod (\<lambda>_. 0) size) es < size obj"
  by (induction obj) auto

text \<open>
  \<open>FileScanner._iter_paths(directory)\<close>, with \<open>obj\<close> what the path \<open>directory\<close> names.
  \<open>iter_entries\<close> is the loop \<open>for entry in it\<close> over the entries still to come. Each
  yielded path comes with the regular file it names.
\<close>

function iter_paths :: "FileScanner \<Rightarrow> path \<Rightarrow> fsobj \<Rightarrow> (path \<times> fileobj) gen"
  and iter_entries :: "FileScanner \<Rightarrow> path \<Rightarrow> (string \<times> fsobj) list \<Rightarrow> (path \<times> fileobj) gen"
where
  "iter_paths sc directory obj =
     except_OSError
       (case scandir obj of
          Inl e \<Rightarrow> raise_gen (OSError e)
        | Inr (es, err) \<Rightarrow>
            then_gen (iter_entries sc directory es)
              (case err of None \<Rightarrow> return_gen | Some e \<Rightarrow> raise_gen (OSError e)))"
| "iter_entries sc directory [] = return_gen"
| "iter_entries sc directory ((nm, obj) # es) =
     then_gen
       (except_OSError
          (if \<not> include_hidden sc \<and> is_hidden nm directory then return_gen
           else
             (case is_dir obj (follow_symlinks sc) of
                Inl e \<Rightarrow> raise_gen (OSError e)
              | Inr True \<Rightarrow>
                  (if \<not> follow_symlinks sc \<and> islink obj then return_gen
                   else iter_paths sc (joinpath directory nm) obj)
              | Inr False \<Rightarrow>
                  (case is_file obj (follow_symlinks sc) of
                     Inl e \<Rightarrow> raise_gen (OSError e)
                   | Inr (Some f) \<Rightarrow> yield (joinpath directory nm, f)
                   | Inr None \<Rightarrow> return_gen))))
       (iter_entries sc directory es)"
  by pat_completeness auto
termination iter_paths
proof (relation "measure (\<lambda>x. case x of
          Inl (sc, d, obj) \<Rightarrow> 2 * size obj
        | Inr (sc, d, es) \<Rightarrow> 2 * size_list (size_prod (\<lambda>_. 0) size) es + 1)")
  show "wf (measure (\<lambda>x. case x of
          Inl (sc, d, obj) \<Rightarrow> 2 * size obj
        | Inr (sc, d, es) \<Rightarrow> 2 * size_list (size_prod (\<lambda>_. 0) size) es + 1))"
    by simp
qed (auto dest: scandir_size)

declare iter_paths.simps [simp del]

text \<open>
  \<open>datetime.fromtimestamp(ts)\<close>, on a host whose local time is UTC. A \<open>datetime\<close> holds
  the years 1 to 9999 and is kept as the timestamp it stands for. Outside that range
  the call raises \<open>ValueError\<close> (year out of range) as long as the C library's
  \<open>localtime\<close> converts the value, and \<open>OSError\<close> beyond that. The bounds are those of
  CPython on 64-bit Linux.
\<close>

datatype datetime = Datetime int

definition DATETIME_MIN :: int where "DATETIME_MIN = - 62135510400"
definition DATETIME_MAX :: int where "DATETIME_MAX = 253402300799"
definition LOCALTIME_MIN :: int where "LOCALTIME_MIN = - 67768040609740800"
definition LOCALTIME_MAX :: int where "LOCALTIME_MAX = 67768036191676799"

definition fromtimestamp :: "int \<Rightarrow> exn + datetime" where
  "fromtimestamp ts =
     (if ts < LOCALTIME_MIN \<or> LOCALTIME_MAX < ts then Inl (OSError OtherOSError)
      else if ts < DATETIME_MIN \<or> DATETIME_MAX < ts then Inl ValueError
      else Inr (Datetime ts))"

definition ts_to_dt :: "int \<Rightarrow> exn + datetime" where
  "ts_to_dt ts = fromtimestamp ts"

record FileMeta =
  path :: string
  name :: string
  parent :: string
  extension :: string
  size_bytes :: int
  created :: datetime
  modified :: datetime
  is_text :: bool
  preview :: "string option"

definition SMALL_PREVIEW_LIMIT :: int where "SMALL_PREVIEW_LIMIT = 1000000"
definition PREVIEW_CHARS :: nat where "PREVIEW_CHARS = 500"

text \<open>
  \<open>FileScanner._looks_like_text(path, probe_bytes)\<close>. The decoding with
  \<open>errors="ignore"\<close> raises nothing and its result is dropped.
\<close>

definition looks_like_text :: "fileobj \<Rightarrow> nat \<Rightarrow> bool" where
  "looks_like_text f probe_bytes =
     (case open_rb f of
        Inl e \<Rightarrow> False
      | Inr content \<Rightarrow>
          (let chunk = take probe_bytes content
           in if (0 :: byte) \<in> set chunk then False else True))"

text \<open>\<open>FileScanner._safe_read_preview(path, chars)\<close>.\<close>

definition safe_read_preview :: "fileobj \<Rightarrow> nat \<Rightarrow> string option" where
  "safe_read_preview f chars =
     (case open_text f of
        Inl e \<Rightarrow> None
      | Inr content \<Rightarrow> (let txt = take chars content in Some (join '' '' (split txt))))"

text \<open>\<open>ext = path.suffix[1:].lower() if path.suffix else ""\<close>.\<close>

definition extension_of :: "path \<Rightarrow> string" where
  "extension_of p = (if path_suffix p \<noteq> [] then lower (drop 1 (path_suffix p)) else [])"

text \<open>\<open>FileScanner.path_to_metadata(path)\<close>, with \<open>f\<close> the regular file that \<open>path\<close> names.\<close>

definition path_to_metadata :: "path \<Rightarrow> fileobj \<Rightarrow> exn + FileMeta" where
  "path_to_metadata p f =
     (case os_stat f of
        Inl e \<Rightarrow> Inl (OSError e)
      | Inr st \<Rightarrow>
          (let ext = extension_of p in
           case ts_to_dt (st_ctime st) of
             Inl e \<Rightarrow> Inl e
           | Inr c \<Rightarrow>
               (case ts_to_dt (st_mtime st) of
                  Inl e \<Rightarrow> Inl e
                | Inr m \<Rightarrow>
                    (let txt = looks_like_text f 1024;
                         pv = (if txt \<and> st_size st \<le> SMALL_PREVIEW_LIMIT
                               then safe_read_preview f PREVIEW_CHARS else None)
                     in Inr \<lparr>path = path_str p, name = path_name p,
                              parent = path_str (path_parent p), extension = ext,
                              size_bytes = st_size st, created = c, modified = m,
                              is_text = txt, preview = pv\<rparr>))))"

text \<open>
  \<open>FileScanner.scan()\<close>: \<open>scan_paths\<close> is the loop over the paths that \<open>_iter_paths\<close>
  yields. A root that no longer exists makes \<open>os.scandir\<close> raise \<open>FileNotFoundError\<close>
  inside \<open>_iter_paths\<close>.
\<close>

fun scan_paths :: "(path \<times> fileobj) list \<Rightarrow> FileMeta gen" where
  "scan_paths [] = return_gen"
| "scan_paths ((p, f) # ps) =
     then_gen
       (except_OSError
          (case path_to_metadata p f of
             Inl e \<Rightarrow> raise_gen e
           | Inr m \<Rightarrow> yield m))
       (scan_paths ps)"

definition iter_root :: "FileScanner \<Rightarrow> filesystem \<Rightarrow> (path \<times> fileobj) gen" where
  "iter_root sc fs =
     (case fs (root sc) of
        None \<Rightarrow> except_OSError (raise_gen (OSError FileNotFoundError))
      | Some obj \<Rightarrow> iter_paths sc (root sc) obj)"

definition scan :: "FileScanner \<Rightarrow> filesystem \<Rightarrow> FileMeta gen" where
  "scan sc fs =
     (let g = iter_root sc fs
      in then_gen (scan_paths (fst g))
           (case snd g of None \<Rightarrow> return_gen | Some e \<Rightarrow> raise_gen e))"

section \<open>Record transforms\<close>

text \<open>\<open>filter_by_extensions(items, exts)\<close>; \<open>exts_lc\<close> is the set comprehension.\<close>

definition filter_by_extensions :: "FileMeta list \<Rightarrow> string list \<Rightarrow> FileMeta list" where
  "filter_by_extensions items exts =
     (let exts_lc = set (map (\<lambda>e. lstrip (lower e) (CHR ''.'')) exts)
      in filter (\<lambda>m. lower (extension m) \<in> exts_lc) items)"

definition filter_larger_than :: "FileMeta list \<Rightarrow> int \<Rightarrow> FileMeta list" where
  "filter_larger_than items min_kb =
     (let limit = max 0 min_kb * 1024
      in filter (\<lambda>m. size_bytes m \<ge> limit) items)"

definition only_text_files :: "FileMeta list \<Rightarrow> FileMeta list" where
  "only_text_files items = filter (\<lambda>m. is_text m) items"

text \<open>
  A Python \<open>dict\<close> keeps its keys in the order of their first insertion: an association
  list with distinct keys. \<open>dict_setitem d k v\<close> is \<open>d[k] = v\<close>, \<open>dict_get d k v\<close> is
  \<open>d.get(k, v)\<close>.
\<close>

type_synonym ('k, 'v) dict = "('k \<times> 'v) list"

fun dict_get :: "('k, 'v) dict \<Rightarrow> 'k \<Rightarrow> 'v \<Rightarrow> 'v" where
  "dict_get [] k dflt = dflt"
| "dict_get ((k', v') # d) k dflt = (if k' = k then v' else dict_get d k dflt)"

fun dict_setitem :: "('k, 'v) dict \<Rightarrow> 'k \<Rightarrow> 'v \<Rightarrow> ('k, 'v) dict" where
  "dict_setitem [] k v = [(k, v)]"
| "dict_setitem ((k', v') # d) k v =
     (if k' = k then (k', v) # d else (k', v') # dict_setitem d k v)"

text \<open>
  \<open>collections.Counter(iterable)\<close>: for each element in turn,
  \<open>self[elem] = self.get(elem, 0) + 1\<close>.
\<close>

definition Counter :: "'k list \<Rightarrow> ('k, int) dict" where
  "Counter xs = foldl (\<lambda>d x. dict_setitem d x (dict_get d x 0 + 1)) [] xs"

text \<open>
  \<open>sorted(xs, key=key, reverse=reverse)\<close>. The sort is stable; with \<open>reverse\<close> the list
  is reversed, sorted, and reversed again, which keeps equal keys in their input order.
\<close>

definition sorted_py :: "'a list \<Rightarrow> ('a \<Rightarrow> 'k::linorder) \<Rightarrow> bool \<Rightarrow> 'a list" where
  "sorted_py xs key reverse =
     (if reverse then rev (sort_key key (rev xs)) else sort_key key xs)"

text \<open>\<open>Counter.most_common()\<close>: \<open>sorted(self.items(), key=itemgetter(1), reverse=True)\<close>.\<close>

definition most_common :: "('k, int) dict \<Rightarrow> ('k \<times> int) list" where
  "most_common c = sorted_py c snd True"

text \<open>The dict comprehension \<open>{k: v for k, v in pairs}\<close>.\<close>

definition dict_of_pairs :: "('k \<times> 'v) list \<Rightarrow> ('k, 'v) dict" where
  "dict_of_pairs kvs = foldl (\<lambda>d (k, v). dict_setitem d k v) [] kvs"

text \<open>\<open>m.extension or "-"\<close>: the empty string is false.\<close>

definition extension_or_dash :: "FileMeta \<Rightarrow> string" where
  "extension_or_dash m = (if extension m \<noteq> [] then extension m else ''-'')"

definition count_by_extension :: "FileMeta list \<Rightarrow> (string, int) dict" where
  "count_by_extension items =
     (let c = Counter (map extension_or_dash items)
      in dict_of_pairs (most_common c))"

definition sort_by :: "FileMeta list \<Rightarrow> (FileMeta \<Rightarrow> 'k::linorder) \<Rightarrow> bool \<Rightarrow> FileMeta list" where
  "sort_by items key_func reverse = sorted_py items key_func reverse"

text \<open>A record with the given name, extension, size and text flag, for the examples.\<close>

definition meta :: "string \<Rightarrow> string \<Rightarrow> int \<Rightarrow> bool \<Rightarrow> FileMeta" where
  "meta nm ext sz txt =
     \<lparr>path = ''/data/'' @ nm, name = nm, parent = ''/data'', extension = ext,
      size_bytes = sz, created = Datetime 0, modified = Datetime 0,
      is_text = txt, preview = None\<rparr>"

text \<open>
  The order in which the elements of a list are first encountered: each element once, at
  the place of its first occurrence.
\<close>

fun first_seen :: "'a list \<Rightarrow> 'a list" where
  "first_seen [] = []"
| "first_seen (x # xs) = x # removeAll x (first_seen xs)"

text \<open>
  \<open>sort_by\<close> on list objects: a store holds the list objects, addressed by position.
  \<open>list(items)\<close> allocates a copy of the object at \<open>items\<close>, \<open>sorted\<close> allocates its
  result; the function returns the new store and the address of the result.
\<close>

type_synonym 'a store = "'a list list"

definition alloc :: "'a store \<Rightarrow> 'a list \<Rightarrow> 'a store \<times> nat" where
  "alloc h xs = (h @ [xs], length h)"

definition sort_by_store ::
  "FileMeta store \<Rightarrow> nat \<Rightarrow> (FileMeta \<Rightarrow> 'k::linorder) \<Rightarrow> bool \<Rightarrow> FileMeta store \<times> nat" where
  "sort_by_store h items key_func reverse =
     (let (h1, copy) = alloc h (h ! items);
          (h2, result) = alloc h1 (sort_by (h1 ! copy) key_func reverse)
      in (h2, result))"

section \<open>Notions used in the properties\<close>

text \<open>
  The part of a name after its last dot (the whole name when it has no dot).
\<close>

definition after_last_dot :: "string \<Rightarrow> string" where
  "after_last_dot nm = rev (takeWhile (\<lambda>c. c \<noteq> CHR ''.'') (rev nm))"

text \<open>
  A string holds two whitespace characters in a row.
\<close>

fun consecutive_ws :: "string \<Rightarrow> bool" where
  "consecutive_ws (a # b # cs) = ((isspace a \<and> isspace b) \<or> consecutive_ws (b # cs))"
| "consecutive_ws _ = False"

text \<open>
  A string whose whitespace is collapsed and trimmed: no two whitespace characters in a
  row, none at either end, and none but the space.
\<close>

definition collapsed :: "string \<Rightarrow> bool" where
  "collapsed s \<longleftrightarrow>
     \<not> consecutive_ws s
     \<and> (s \<noteq> [] \<longrightarrow> \<not> isspace (hd s) \<and> \<not> isspace (last s))
     \<and> (\<forall>c \<in> set s. isspace c \<longrightarrow> c = CHR '' '')"

text \<open>
  A word of \<open>split\<close>, and the length of a list of words joined by single separators, plus one.
\<close>

definition is_word :: "string \<Rightarrow> bool" where
  "is_word w \<longleftrightarrow> w \<noteq> [] \<and> (\<forall>c \<in> set w. \<not> isspace c)"

fun total_len :: "string list \<Rightarrow> nat" where
  "total_len [] = 0"
| "total_len (w # ws) = length w + 1 + total_len ws"

text \<open>
  Example files: a readable regular file of the given size, bytes and text; and a
  directory \<open>/dev/shm\<close> whose second file has a modification time in the year 10001.
\<close>

definition plain_file :: "int \<Rightarrow> byte list \<Rightarrow> string \<Rightarrow> fileobj" where
  "plain_file sz bs txt =
     \<lparr>os_stat = Inr \<lparr>st_size = sz, st_ctime = 1700000000, st_mtime = 1700000000\<rparr>,
      open_rb = Inr bs, open_text = Inr txt\<rparr>"

definition shm :: filesystem where
  "shm p =
     (if p = [''dev'', ''shm''] then
        Some (Directory
          [(''notes.txt'', RegFile (plain_file 2 [104, 105] ''hi'')),
           (''future.txt'', RegFile
              \<lparr>os_stat = Inr \<lparr>st_size = 2, st_ctime = 1793715979, st_mtime = 253436860800\<rparr>,
               open_rb = Inr [104, 105], open_text = Inr ''hi''\<rparr>),
           (''later.txt'', RegFile (plain_file 2 [104, 105] ''hi''))] None)
      else None)"

section \<open>Properties of the scanner\<close>

subsection \<open>Generators\<close>

lemma fst_except_OSError: "fst (except_OSError g) = fst g"
  by (auto simp: except_OSError_def split: option.splits exn.splits)

lemma set_fst_then_gen: "set (fst (then_gen g h)) \<subseteq> set (fst g) \<union> set (fst h)"
  by (auto simp: then_gen_def split: option.splits)

lemma fst_then_gen_nil: "fst h = [] \<Longrightarrow> fst (then_gen g h) = fst g"
  by (auto simp: then_gen_def split: option.splits)

lemma then_gen_return: "then_gen return_gen h = h"
  by (simp add: then_gen_def return_gen_def)

lemma except_OSError_return: "except_OSError return_gen = return_gen"
  by (simp add: except_OSError_def return_gen_def)

lemma snd_except_OSError:
  "snd g \<noteq> Some ValueError \<Longrightarrow> snd (except_OSError g) = None"
  by (auto simp: except_OSError_def split: option.splits exn.splits)

lemma snd_then_gen:
  "snd (then_gen g h) = (case snd g of None \<Rightarrow> snd h | Some e \<Rightarrow> Some e)"
  by (simp add: then_gen_def split: option.splits)

subsection \<open>Hidden entries\<close>

lemma is_hidden_loop_iff: "is_hidden_loop p \<longleftrightarrow> (\<exists>c \<in> set p. startswith c ''.'')"
proof (induction p rule: rev_induct)
  case Nil
  show ?case
    by (subst is_hidden_loop.simps) (simp add: path_name_def path_parent_def startswith_def)
next
  case (snoc x xs)
  show ?case
    by (subst is_hidden_loop.simps) (auto simp: path_name_def path_parent_def snoc.IH)
qed

lemma is_hidden_iff:
  "is_hidden nm d \<longleftrightarrow> startswith nm ''.'' \<or> (\<exists>c \<in> set d. startswith c ''.'')"
  by (simp add: is_hidden_def is_hidden_loop_iff)

lemma iter_yields_undotted:
  "\<not> include_hidden sc \<Longrightarrow>
     \<forall>(p, f) \<in> set (fst (iter_paths sc d obj)). \<forall>c \<in> set p. \<not> startswith c ''.''"
  "\<not> include_hidden sc \<Longrightarrow>
     \<forall>(p, f) \<in> set (fst (iter_entries sc d es)). \<forall>c \<in> set p. \<not> startswith c ''.''"
proof (induction sc d obj and sc d es rule: iter_paths_iter_entries.induct)
  case (1 sc directory obj)
  show ?case
  proof (cases "scandir obj")
    case (Inl e)
    then show ?thesis
      by (subst iter_paths.simps) (simp add: fst_except_OSError raise_gen_def)
  next
    case (Inr b)
    obtain es err where b: "b = (es, err)" by (cases b)
    from "1.IH" [OF Inr b [symmetric]] "1.prems"
    have ih: "\<forall>(p, f) \<in> set (fst (iter_entries sc directory es)). \<forall>c \<in> set p. \<not> startswith c ''.''"
      by simp
    have "fst (case err of None \<Rightarrow> return_gen | Some e \<Rightarrow> raise_gen (OSError e)) = ([] :: (path \<times> fileobj) list)"
      by (simp add: return_gen_def raise_gen_def split: option.splits)
    then have "fst (iter_paths sc directory obj) = fst (iter_entries sc directory es)"
      by (subst iter_paths.simps) (simp add: Inr b fst_except_OSError fst_then_gen_nil)
    with ih show ?thesis by simp
  qed
next
  case (2 sc directory)
  show ?case by (simp add: return_gen_def)
next
  case (3 sc directory nm obj es)
  let ?body = "(if \<not> include_hidden sc \<and> is_hidden nm directory then return_gen
           else
             (case is_dir obj (follow_symlinks sc) of
                Inl e \<Rightarrow> raise_gen (OSError e)
              | Inr True \<Rightarrow>
                  (if \<not> follow_symlinks sc \<and> islink obj then return_gen
                   else iter_paths sc (joinpath directory nm) obj)
              | Inr False \<Rightarrow>
                  (case is_file obj (follow_symlinks sc) of
                     Inl e \<Rightarrow> raise_gen (OSError e)
                   | Inr (Some f) \<Rightarrow> yield (joinpath directory nm, f)
                   | Inr None \<Rightarrow> return_gen)))"
  have rest: "\<forall>(p, f) \<in> set (fst (iter_entries sc directory es)). \<forall>c \<in> set p. \<not> startswith c ''.''"
    using "3.IH"(2) "3.prems" by simp
  have body: "\<forall>(p, f) \<in> set (fst ?body). \<forall>c \<in> set p. \<not> startswith c ''.''"
  proof (cases "is_hidden nm directory")
    case True
    with "3.prems" show ?thesis by (simp add: return_gen_def)
  next
    case False
    then have clean: "\<forall>c \<in> set (joinpath directory nm). \<not> startswith c ''.''"
      by (auto simp: is_hidden_iff joinpath_def)
    show ?thesis
    proof (cases "is_dir obj (follow_symlinks sc)")
      case (Inl e)
      then show ?thesis using False by (simp add: raise_gen_def return_gen_def)
    next
      case (Inr b)
      show ?thesis
      proof (cases b)
        case True
        show ?thesis
        proof (cases "\<not> follow_symlinks sc \<and> islink obj")
          case True
          then show ?thesis using False Inr \<open>b\<close> by (simp add: return_gen_def)
        next
          case nolink: False
          have nh: "\<not> (\<not> include_hidden sc \<and> is_hidden nm directory)"
            using False by simp
          have bt: "b = True" using True by simp
          from "3.IH"(1) [OF nh Inr bt nolink "3.prems"]
          have "\<forall>(p, f) \<in> set (fst (iter_paths sc (joinpath directory nm) obj)).
              \<forall>c \<in> set p. \<not> startswith c ''.''"
            by simp
          then show ?thesis using False Inr True nolink by (auto simp: return_gen_def)
        qed
      next
        case notdir: False
        show ?thesis
          using False Inr notdir clean
          by (auto simp: raise_gen_def return_gen_def yield_def split: sum.splits option.splits)
      qed
    qed
  qed
  have "set (fst (iter_entries sc directory ((nm, obj) # es)))
      \<subseteq> set (fst ?body) \<union> set (fst (iter_entries sc directory es))"
    using set_fst_then_gen [of "except_OSError ?body" "iter_entries sc directory es"]
    by (simp add: fst_except_OSError)
  with body rest show ?case by blast
qed

lemma scan_paths_yields:
  "m \<in> set (fst (scan_paths ps)) \<Longrightarrow> \<exists>(p, f) \<in> set ps. path_to_metadata p f = Inr m"
proof (induction ps)
  case Nil
  then show ?case by (simp add: return_gen_def)
next
  case (Cons pf ps)
  obtain p f where pf: "pf = (p, f)" by (cases pf)
  let ?one = "case path_to_metadata p f of Inl e \<Rightarrow> raise_gen e | Inr m \<Rightarrow> yield m"
  from Cons.prems have "m \<in> set (fst ?one) \<or> m \<in> set (fst (scan_paths ps))"
    using set_fst_then_gen [of "except_OSError ?one" "scan_paths ps"]
    by (auto simp: pf fst_except_OSError)
  then show ?case
  proof
    assume "m \<in> set (fst ?one)"
    then have "path_to_metadata p f = Inr m"
      by (auto simp: raise_gen_def yield_def split: sum.splits)
    then show ?thesis by (auto simp: pf)
  next
    assume "m \<in> set (fst (scan_paths ps))"
    with Cons.IH show ?thesis by auto
  qed
qed

lemma scan_yields:
  "m \<in> set (fst (scan sc fs)) \<Longrightarrow>
   \<exists>(p, f) \<in> set (fst (iter_root sc fs)). path_to_metadata p f = Inr m"
proof -
  assume "m \<in> set (fst (scan sc fs))"
  then have "m \<in> set (fst (scan_paths (fst (iter_root sc fs))))"
    by (simp add: scan_def Let_def fst_then_gen_nil return_gen_def raise_gen_def
        split: option.splits)
  then show ?thesis by (rule scan_paths_yields)
qed

lemma path_to_metadata_fields:
  assumes "path_to_metadata p f = Inr m"
  shows "path m = path_str p" and "name m = path_name p"
    and "parent m = path_str (path_parent p)" and "extension m = extension_of p"
    and "os_stat f = Inr st \<Longrightarrow> size_bytes m = st_size st"
    and "\<exists>st. os_stat f = Inr st"
    and "is_text m = looks_like_text f 1024"
    and "preview m = (if is_text m \<and> size_bytes m \<le> SMALL_PREVIEW_LIMIT
                      then safe_read_preview f PREVIEW_CHARS else None)"
  using assms
  by (auto simp: path_to_metadata_def Let_def split: sum.splits)

lemma iter_root_undotted:
  "\<not> include_hidden sc \<Longrightarrow>
   \<forall>(p, f) \<in> set (fst (iter_root sc fs)). \<forall>c \<in> set p. \<not> startswith c ''.''"
  using iter_yields_undotted(1) [of sc "root sc"]
  by (auto simp: iter_root_def except_OSError_def raise_gen_def split: option.splits)

text \<open>
  C1. In a scan with \<open>include_hidden = False\<close>, an entry is hidden exactly when its own
  name begins with a dot or some component of its containing directory, up to the
  filesystem root, does. A hidden entry is skipped with everything beneath it, and a
  regular file that is not hidden is yielded. So no yielded path, and no yielded record's
  path, has a component that begins with a dot.
\<close>

theorem hidden_entries_skipped:
  assumes "\<not> include_hidden sc"
  shows "(is_hidden nm d \<longleftrightarrow> startswith nm ''.'' \<or> (\<exists>c \<in> set d. startswith c ''.''))
   \<and> (is_hidden nm d \<longrightarrow> iter_entries sc d ((nm, obj) # es) = iter_entries sc d es)
   \<and> (\<not> is_hidden nm d \<longrightarrow>
        iter_entries sc d ((nm, RegFile f) # es) =
          then_gen (yield (joinpath d nm, f)) (iter_entries sc d es))
   \<and> (\<forall>(p, g) \<in> set (fst (iter_paths sc d obj)). \<forall>c \<in> set p. \<not> startswith c ''.'')
   \<and> (\<forall>m \<in> set (fst (scan sc fs)).
        \<exists>p. path m = path_str p \<and> name m = path_name p \<and> (\<forall>c \<in> set p. \<not> startswith c ''.''))"
proof -
  have skip: "iter_entries sc d ((nm, obj) # es) = iter_entries sc d es" if "is_hidden nm d"
    using that assms by (simp add: except_OSError_return then_gen_return)
  have keep: "iter_entries sc d ((nm, RegFile f) # es) =
          then_gen (yield (joinpath d nm, f)) (iter_entries sc d es)" if "\<not> is_hidden nm d"
    using that by (simp add: except_OSError_def yield_def)
  have rec: "\<exists>p. path m = path_str p \<and> name m = path_name p \<and> (\<forall>c \<in> set p. \<not> startswith c ''.'')"
    if "m \<in> set (fst (scan sc fs))" for m
  proof -
    from scan_yields [OF that] obtain p g
      where "(p, g) \<in> set (fst (iter_root sc fs))" and "path_to_metadata p g = Inr m"
      by auto
    with iter_root_undotted [OF assms, of fs] path_to_metadata_fields(1,2) [of p g m]
    show ?thesis by auto
  qed
  from skip keep rec iter_yields_undotted(1) [OF assms, of d obj] is_hidden_iff [of nm d]
  show ?thesis by blast
qed

theorem hidden_entries_skipped_witness:
  "\<not> include_hidden \<lparr>root = [''srv'', ''data''], include_hidden = False, follow_symlinks = False\<rparr>
   \<and> is_hidden ''secret.txt'' [''srv'', ''.cache'']
   \<and> \<not> is_hidden ''notes.txt'' [''srv'', ''data'']
   \<and> fst (iter_paths \<lparr>root = [''srv'', ''data''], include_hidden = False, follow_symlinks = False\<rparr>
        [''srv'', ''data'']
        (Directory [(''notes.txt'', RegFile (plain_file 2 [104, 105] ''hi'')),
                    (''.hidden'', Directory [(''secret.txt'', RegFile (plain_file 0 [] ''''))] None)] None))
      = [([''srv'', ''data'', ''notes.txt''], plain_file 2 [104, 105] ''hi'')]"
  using hidden_entries_skipped [where
      sc = "\<lparr>root = [''srv'', ''data''], include_hidden = False, follow_symlinks = False\<rparr>"
      and nm = "''secret.txt''" and d = "[''srv'', ''.cache'']"]
    hidden_entries_skipped [where
      sc = "\<lparr>root = [''srv'', ''data''], include_hidden = False, follow_symlinks = False\<rparr>"
      and nm = "''notes.txt''" and d = "[''srv'', ''data'']"]
  by (simp add: is_hidden_iff startswith_def iter_paths.simps except_OSError_def then_gen_def
      return_gen_def raise_gen_def yield_def joinpath_def)

subsection \<open>Text classification\<close>

text \<open>
  C5. The classification reads up to 1024 bytes from the start of the file. \<open>is_text\<close> is
  false exactly when the probe read fails with an \<open>OSError\<close> or a NUL byte is among the
  bytes read, and true otherwise. The probe never makes a record fail: a file whose
  \<open>stat\<close> succeeds and whose timestamps convert gets a record whatever the probe finds.
  Every record that \<open>scan\<close> yields carries this classification of its file.
\<close>

theorem looks_like_text_probe:
  "(looks_like_text f 1024 = False \<longleftrightarrow>
      (\<exists>e. open_rb f = Inl e) \<or> (\<exists>content. open_rb f = Inr content \<and> 0 \<in> set (take 1024 content)))
   \<and> (path_to_metadata p f = Inr m \<longrightarrow> is_text m = looks_like_text f 1024)
   \<and> (os_stat f = Inr st \<and> ts_to_dt (st_ctime st) = Inr c \<and> ts_to_dt (st_mtime st) = Inr t
        \<longrightarrow> (\<exists>r. path_to_metadata p f = Inr r))
   \<and> (\<forall>r \<in> set (fst (scan sc fs)).
        \<exists>(q, g) \<in> set (fst (iter_root sc fs)).
          path_to_metadata q g = Inr r \<and> is_text r = looks_like_text g 1024)"
proof -
  have a: "looks_like_text f 1024 = False \<longleftrightarrow>
      (\<exists>e. open_rb f = Inl e) \<or> (\<exists>content. open_rb f = Inr content \<and> 0 \<in> set (take 1024 content))"
    by (cases "open_rb f") (simp_all add: looks_like_text_def)
  have b: "is_text m = looks_like_text f 1024" if "path_to_metadata p f = Inr m"
    using that by (rule path_to_metadata_fields(7))
  have c: "\<exists>r. path_to_metadata p f = Inr r"
    if "os_stat f = Inr st" "ts_to_dt (st_ctime st) = Inr c" "ts_to_dt (st_mtime st) = Inr t"
    using that by (simp add: path_to_metadata_def Let_def)
  have d: "\<exists>(q, g) \<in> set (fst (iter_root sc fs)).
          path_to_metadata q g = Inr r \<and> is_text r = looks_like_text g 1024"
    if "r \<in> set (fst (scan sc fs))" for r
    using scan_yields [OF that] path_to_metadata_fields(7) by fastforce
  from a b c d show ?thesis by blast
qed

theorem looks_like_text_probe_witness:
  "looks_like_text (plain_file 3 [137, 0, 80] ''P'') 1024 = False
   \<and> looks_like_text (plain_file 2 [104, 105] ''hi'') 1024 = True
   \<and> looks_like_text \<lparr>os_stat = Inr \<lparr>st_size = 2, st_ctime = 0, st_mtime = 0\<rparr>,
        open_rb = Inl PermissionError, open_text = Inr ''hi''\<rparr> 1024 = False
   \<and> map is_text (fst (scan \<lparr>root = [''srv''], include_hidden = False, follow_symlinks = False\<rparr>
        (\<lambda>p. if p = [''srv''] then Some (Directory
           [(''image.bin'', RegFile (plain_file 3 [137, 0, 80] ''P'')),
            (''locked.txt'', RegFile \<lparr>os_stat = Inr \<lparr>st_size = 2, st_ctime = 0, st_mtime = 0\<rparr>,
                open_rb = Inl PermissionError, open_text = Inr ''hi''\<rparr>),
            (''notes.txt'', RegFile (plain_file 2 [104, 105] ''hi''))] None) else None)))
      = [False, False, True]"
  using looks_like_text_probe [where f = "plain_file 3 [137, 0, 80] ''P''" and p = "[''srv'', ''image.bin'']"
      and st = "\<lparr>st_size = 3, st_ctime = 1700000000, st_mtime = 1700000000\<rparr>"
      and c = "Datetime 1700000000" and t = "Datetime 1700000000"
      and sc = "\<lparr>root = [''srv''], include_hidden = False, follow_symlinks = False\<rparr>"]
  by (simp add: looks_like_text_def plain_file_def scan_def iter_root_def iter_paths.simps
      is_hidden_iff startswith_def path_to_metadata_def ts_to_dt_def fromtimestamp_def
      DATETIME_MIN_def DATETIME_MAX_def LOCALTIME_MIN_def LOCALTIME_MAX_def
      SMALL_PREVIEW_LIMIT_def safe_read_preview_def
      except_OSError_def then_gen_def return_gen_def raise_gen_def yield_def joinpath_def Let_def)

subsection \<open>Extensions\<close>

lemma rfind_None: "rfind xs c = None \<longleftrightarrow> c \<notin> set xs"
  by (induction xs) (auto split: option.splits)

lemma rfind_Some:
  "rfind xs c = Some i \<Longrightarrow> i < length xs \<and> xs ! i = c \<and> c \<notin> set (drop (Suc i) xs)"
proof (induction xs arbitrary: i)
  case Nil
  then show ?case by simp
next
  case (Cons x xs)
  show ?case
  proof (cases "rfind xs c")
    case None
    with Cons.prems have "x = c" "i = 0" by (auto split: if_splits)
    with None show ?thesis by (simp add: rfind_None)
  next
    case (Some j)
    with Cons.prems have "i = Suc j" by simp
    with Cons.IH [OF Some] show ?thesis by simp
  qed
qed

lemma after_last_dot_rfind:
  assumes "rfind nm (CHR ''.'') = Some i"
  shows "after_last_dot nm = drop (Suc i) nm" and "drop i nm = CHR ''.'' # drop (Suc i) nm"
proof -
  from rfind_Some [OF assms]
  have i: "i < length nm" and dot: "nm ! i = CHR ''.''" and rest: "CHR ''.'' \<notin> set (drop (Suc i) nm)"
    by auto
  from i dot show d: "drop i nm = CHR ''.'' # drop (Suc i) nm"
    by (simp add: Cons_nth_drop_Suc [symmetric])
  have "nm = take i nm @ CHR ''.'' # drop (Suc i) nm"
    using d by (metis append_take_drop_id)
  then have "rev nm = rev (drop (Suc i) nm) @ CHR ''.'' # rev (take i nm)"
    by (metis rev.simps(2) rev_append append.assoc append_Cons append_Nil)
  moreover have "takeWhile (\<lambda>c. c \<noteq> CHR ''.'') (rev (drop (Suc i) nm) @ CHR ''.'' # rev (take i nm))
      = rev (drop (Suc i) nm)"
    using rest by (subst takeWhile_append2) auto
  ultimately show "after_last_dot nm = drop (Suc i) nm"
    by (simp add: after_last_dot_def)
qed

lemma char_eq_char_of: "c = char_of (n :: nat) \<longleftrightarrow> of_char c = n mod 256"
proof
  assume "c = char_of n"
  then show "of_char c = n mod 256" by simp
next
  assume "of_char c = n mod 256"
  then have "(of_char c :: nat) = of_char (char_of n)" by simp
  then show "c = char_of n" by (rule of_char_eqI)
qed

lemma lower_char_idem: "lower_char (lower_char c) = lower_char c"
proof -
  have "of_char (char_of (of_char c + (32::nat))) = (of_char c + 32 :: nat)"
    if "(of_char c :: nat) \<le> 222"
    using that by simp
  then show ?thesis
    by (auto simp: lower_char_def Let_def)
qed

lemma lower_idem: "lower (lower s) = lower s"
  by (simp add: lower_def lower_char_idem)

lemma of_char_46: "(of_char c :: nat) = 46 \<Longrightarrow> c = CHR ''.''"
proof -
  assume "(of_char c :: nat) = 46"
  moreover have "(of_char (CHR ''.'') :: nat) = 46" by simp
  ultimately have "(of_char c :: nat) = of_char (CHR ''.'')" by simp
  then show ?thesis by (simp only: of_char_eq_iff)
qed

lemma lower_char_dot: "lower_char c = CHR ''.'' \<longleftrightarrow> c = CHR ''.''"
proof
  assume "lower_char c = CHR ''.''"
  then have "(of_char (lower_char c) :: nat) = 46" by simp
  then show "c = CHR ''.''"
    by (auto simp: lower_char_def Let_def of_char_46 split: if_splits)
next
  assume "c = CHR ''.''"
  then show "lower_char c = CHR ''.''" by (simp add: lower_char_def)
qed

lemma suffix_of_name_cases:
  "suffix_of_name nm = [] \<or>
   (suffix_of_name nm = CHR ''.'' # after_last_dot nm \<and> after_last_dot nm \<noteq> [] \<and>
    (\<exists>stem. stem \<noteq> [] \<and> nm = stem @ CHR ''.'' # after_last_dot nm))"
proof (cases "rfind nm (CHR ''.'')")
  case None
  then show ?thesis by (simp add: suffix_of_name_def)
next
  case (Some i)
  note ald = after_last_dot_rfind [OF Some]
  show ?thesis
  proof (cases "0 < i \<and> i + 1 < length nm")
    case False
    then have "suffix_of_name nm = []" by (auto simp: suffix_of_name_def Some)
    then show ?thesis by simp
  next
    case True
    then have "suffix_of_name nm = CHR ''.'' # after_last_dot nm"
      by (simp add: suffix_of_name_def Some ald)
    moreover from True have "after_last_dot nm \<noteq> []" by (simp add: ald(1))
    moreover have "nm = take i nm @ CHR ''.'' # after_last_dot nm"
      using ald by (metis append_take_drop_id)
    moreover from True have "take i nm \<noteq> []" by auto
    ultimately show ?thesis by blast
  qed
qed

lemma suffix_of_name_nonempty_iff:
  "suffix_of_name nm \<noteq> [] \<longleftrightarrow>
   (\<exists>stem ext. nm = stem @ CHR ''.'' # ext \<and> stem \<noteq> [] \<and> ext \<noteq> [] \<and> CHR ''.'' \<notin> set ext)"
proof
  assume "suffix_of_name nm \<noteq> []"
  with suffix_of_name_cases [of nm] obtain stem
    where "stem \<noteq> []" "nm = stem @ CHR ''.'' # after_last_dot nm" "after_last_dot nm \<noteq> []"
    by auto
  moreover have "CHR ''.'' \<notin> set (after_last_dot nm)"
    by (auto simp: after_last_dot_def dest: set_takeWhileD)
  ultimately show "\<exists>stem ext. nm = stem @ CHR ''.'' # ext \<and> stem \<noteq> [] \<and> ext \<noteq> [] \<and> CHR ''.'' \<notin> set ext"
    by blast
next
  assume "\<exists>stem ext. nm = stem @ CHR ''.'' # ext \<and> stem \<noteq> [] \<and> ext \<noteq> [] \<and> CHR ''.'' \<notin> set ext"
  then obtain stem ext where nm: "nm = stem @ CHR ''.'' # ext"
    and ne: "stem \<noteq> []" "ext \<noteq> []" and nodot: "CHR ''.'' \<notin> set ext"
    by blast
  have "rfind nm (CHR ''.'') = Some (length stem)"
    unfolding nm using nodot
  proof (induction stem)
    case Nil
    then show ?case by (simp add: rfind_None [THEN iffD2])
  next
    case (Cons a stem)
    then show ?case by simp
  qed
  with ne show "suffix_of_name nm \<noteq> []"
    by (simp add: suffix_of_name_def nm)
qed

text \<open>
  C9. For every record that \<open>path_to_metadata\<close> builds, and so for every record that
  \<open>scan\<close> yields, the extension is the lowercased part of the name after its last dot
  when the name has a suffix, and the empty string when it has none. A name has a suffix
  exactly when its last dot has at least one character before it and at least one after
  it. The extension is unchanged by lowercasing, holds no dot (so it never begins with
  one), and is empty for a name without a dot.
\<close>

theorem extension_lowercase_suffix:
  assumes "path_to_metadata p f = Inr m \<or> m \<in> set (fst (scan sc fs))"
  shows "extension m = (if suffix_of_name (name m) = [] then [] else lower (after_last_dot (name m)))
   \<and> (suffix_of_name (name m) \<noteq> [] \<longleftrightarrow>
        (\<exists>stem ext. name m = stem @ CHR ''.'' # ext \<and> stem \<noteq> [] \<and> ext \<noteq> [] \<and> CHR ''.'' \<notin> set ext))
   \<and> lower (extension m) = extension m
   \<and> CHR ''.'' \<notin> set (extension m)
   \<and> \<not> startswith (extension m) ''.''
   \<and> (CHR ''.'' \<notin> set (name m) \<longrightarrow> extension m = [])"
proof -
  from assms obtain q g where built: "path_to_metadata q g = Inr m"
    using scan_yields [of m sc fs] by auto
  let ?nm = "path_name q"
  have nm: "name m = ?nm" and ext: "extension m = extension_of q"
    using path_to_metadata_fields(2,4) [OF built] by simp_all
  have suf: "suffix_of_name ?nm \<noteq> [] \<Longrightarrow> suffix_of_name ?nm = CHR ''.'' # after_last_dot ?nm"
    using suffix_of_name_cases [of ?nm] by auto
  have a: "extension m = (if suffix_of_name ?nm = [] then [] else lower (after_last_dot ?nm))"
    using suf by (auto simp: ext extension_of_def path_suffix_def)
  have nodot_after: "CHR ''.'' \<notin> set (after_last_dot ?nm)"
    by (auto simp: after_last_dot_def dest: set_takeWhileD)
  have "CHR ''.'' \<notin> set (lower (after_last_dot ?nm))"
  proof
    assume "CHR ''.'' \<in> set (lower (after_last_dot ?nm))"
    then obtain c where "c \<in> set (after_last_dot ?nm)" "lower_char c = CHR ''.''"
      by (auto simp: lower_def)
    with nodot_after show False by (simp add: lower_char_dot)
  qed
  then have d: "CHR ''.'' \<notin> set (extension m)"
    by (simp add: a)
  then have e: "\<not> startswith (extension m) ''.''"
    by (cases "extension m") (auto simp: startswith_def)
  have c: "lower (extension m) = extension m"
    by (simp add: a lower_idem) (simp add: lower_def)
  have g: "extension m = []" if "CHR ''.'' \<notin> set ?nm"
    using that by (simp add: ext extension_of_def path_suffix_def suffix_of_name_def
        rfind_None [THEN iffD2])
  from a d e c g suffix_of_name_nonempty_iff [of ?nm] show ?thesis
    unfolding nm by blast
qed

theorem extension_lowercase_suffix_witness:
  "path_to_metadata [''srv'', ''Report.Final.TXT''] (plain_file 2 [104, 105] ''hi'')
     = Inr \<lparr>path = ''/srv/Report.Final.TXT'', name = ''Report.Final.TXT'', parent = ''/srv'',
            extension = ''txt'', size_bytes = 2, created = Datetime 1700000000,
            modified = Datetime 1700000000, is_text = True, preview = Some ''hi''\<rparr>
   \<and> after_last_dot ''Report.Final.TXT'' = ''TXT''
   \<and> extension_of [''srv'', ''Makefile''] = []
   \<and> extension_of [''srv'', ''.bashrc''] = []
   \<and> extension_of [''srv'', ''archive.''] = []"
  using extension_lowercase_suffix [where p = "[''srv'', ''Report.Final.TXT'']"
      and f = "plain_file 2 [104, 105] ''hi''"
      and m = "\<lparr>path = ''/srv/Report.Final.TXT'', name = ''Report.Final.TXT'', parent = ''/srv'',
            extension = ''txt'', size_bytes = 2, created = Datetime 1700000000,
            modified = Datetime 1700000000, is_text = True, preview = Some ''hi''\<rparr>"]
  by (simp add: path_to_metadata_def plain_file_def ts_to_dt_def fromtimestamp_def
      DATETIME_MIN_def DATETIME_MAX_def LOCALTIME_MIN_def LOCALTIME_MAX_def
      SMALL_PREVIEW_LIMIT_def PREVIEW_CHARS_def safe_read_preview_def looks_like_text_def
      extension_of_def path_suffix_def suffix_of_name_def path_name_def path_parent_def
      path_str_def lower_def lower_char_def split_def isspace_def char_of_eq_iff
      after_last_dot_def Let_def)

subsection \<open>Previews\<close>

lemma consecutive_ws_Cons:
  "consecutive_ws (c # s) \<longleftrightarrow> (isspace c \<and> s \<noteq> [] \<and> isspace (hd s)) \<or> consecutive_ws s"
  by (cases s) auto

lemma consecutive_ws_word:
  "\<forall>c \<in> set w. \<not> isspace c \<Longrightarrow> consecutive_ws (w @ s) = consecutive_ws s"
  by (induction w) (auto simp: consecutive_ws_Cons)

lemma split_from_words:
  "\<forall>c \<in> set acc. \<not> isspace c \<Longrightarrow> \<forall>w \<in> set (split_from acc s). is_word w"
proof (induction s arbitrary: acc)
  case Nil
  then show ?case by (simp add: is_word_def)
next
  case (Cons c cs)
  show ?case
  proof (cases "isspace c")
    case True
    have "\<forall>w \<in> set (split_from [] cs). is_word w"
      by (rule Cons.IH) simp
    with True Cons.prems show ?thesis by (simp add: is_word_def)
  next
    case False
    with Cons.prems have "\<forall>w \<in> set (split_from (acc @ [c]) cs). is_word w"
      by (intro Cons.IH) simp
    with False show ?thesis by simp
  qed
qed

lemma split_words: "\<forall>w \<in> set (split s). is_word w"
  using split_from_words [of "[]" s] by (simp add: split_def)

lemma join_Cons: "join sep (w # ws) = (if ws = [] then w else w @ sep @ join sep ws)"
  by (cases ws) simp_all

lemma join_words:
  "\<forall>w \<in> set ws. is_word w \<Longrightarrow>
     \<not> consecutive_ws (join '' '' ws)
     \<and> (ws \<noteq> [] \<longrightarrow> join '' '' ws \<noteq> [] \<and> \<not> isspace (hd (join '' '' ws))
           \<and> \<not> isspace (last (join '' '' ws)))
     \<and> (\<forall>c \<in> set (join '' '' ws). isspace c \<longrightarrow> c = CHR '' '')"
proof (induction ws)
  case Nil
  show ?case by simp
next
  case (Cons w ws)
  then have w: "w \<noteq> []" "\<forall>c \<in> set w. \<not> isspace c"
    by (simp_all add: is_word_def)
  then have hw: "\<not> isspace (hd w)" "\<not> isspace (last w)" by simp_all
  show ?case
  proof (cases "ws = []")
    case True
    with w hw consecutive_ws_word [of w "[]"] show ?thesis by simp
  next
    case False
    let ?r = "join '' '' ws"
    from Cons False have r: "\<not> consecutive_ws ?r" "?r \<noteq> []" "\<not> isspace (hd ?r)"
      "\<not> isspace (last ?r)" "\<forall>c \<in> set ?r. isspace c \<longrightarrow> c = CHR '' ''"
      by simp_all
    have j: "join '' '' (w # ws) = w @ CHR '' '' # ?r"
      using False by (simp add: join_Cons)
    have "\<not> consecutive_ws (w @ CHR '' '' # ?r)"
      using w(2) r by (simp add: consecutive_ws_word consecutive_ws_Cons)
    moreover have "hd (w @ CHR '' '' # ?r) = hd w" "last (w @ CHR '' '' # ?r) = last ?r"
      using w(1) r(2) by simp_all
    moreover have "\<forall>c \<in> set (w @ CHR '' '' # ?r). isspace c \<longrightarrow> c = CHR '' ''"
      using w(2) r(5) by auto
    ultimately show ?thesis
      using hw r by (simp only: j) simp
  qed
qed

lemma total_len_split_from:
  "total_len (split_from acc s) \<le> length acc + length s + 1"
proof (induction s arbitrary: acc)
  case Nil
  show ?case by simp
next
  case (Cons c cs)
  show ?case
  proof (cases "isspace c")
    case True
    with Cons [of "[]"] show ?thesis by simp
  next
    case False
    with Cons [of "acc @ [c]"] show ?thesis by simp
  qed
qed

lemma length_join: "length (join '' '' ws) = total_len ws - 1"
proof (induction ws)
  case Nil
  show ?case by simp
next
  case (Cons w ws)
  show ?case
  proof (cases ws)
    case Nil
    then show ?thesis by simp
  next
    case (Cons v vs)
    then have "0 < total_len ws" by simp
    with Cons.IH Cons show ?thesis by (simp add: join_Cons)
  qed
qed

lemma length_join_split: "length (join '' '' (split s)) \<le> length s"
  using total_len_split_from [of "[]" s] by (simp add: length_join split_def)

lemma collapsed_join_split: "collapsed (join '' '' (split s))"
proof -
  have "split s \<noteq> []" if "join '' '' (split s) \<noteq> []"
    using that by auto
  with join_words [OF split_words [of s]] show ?thesis
    by (simp add: collapsed_def)
qed

lemma preview_of_metadata:
  assumes "path_to_metadata p f = Inr m"
  shows "preview m \<noteq> None \<longleftrightarrow>
      is_text m \<and> size_bytes m \<le> 1000000 \<and> (\<exists>content. open_text f = Inr content)"
    and "preview m = Some pv \<Longrightarrow>
      (\<exists>content. open_text f = Inr content \<and> pv = join '' '' (split (take 500 content)))
      \<and> length pv \<le> 500 \<and> collapsed pv"
proof -
  have pv: "preview m = (if is_text m \<and> size_bytes m \<le> SMALL_PREVIEW_LIMIT
                      then safe_read_preview f PREVIEW_CHARS else None)"
    using assms by (rule path_to_metadata_fields(8))
  show "preview m \<noteq> None \<longleftrightarrow>
      is_text m \<and> size_bytes m \<le> 1000000 \<and> (\<exists>content. open_text f = Inr content)"
    by (cases "open_text f")
      (simp_all add: pv safe_read_preview_def SMALL_PREVIEW_LIMIT_def Let_def)
  assume "preview m = Some pv"
  then have "safe_read_preview f PREVIEW_CHARS = Some pv"
    by (simp add: pv split: if_splits)
  then obtain content where c: "open_text f = Inr content"
    and eq: "pv = join '' '' (split (take 500 content))"
    by (cases "open_text f") (auto simp: safe_read_preview_def PREVIEW_CHARS_def Let_def)
  have "length pv \<le> 500"
    using length_join_split [of "take 500 content"] by (simp add: eq)
  with c eq collapsed_join_split [of "take 500 content"]
  show "(\<exists>content. open_text f = Inr content \<and> pv = join '' '' (split (take 500 content)))
      \<and> length pv \<le> 500 \<and> collapsed pv"
    by simp
qed

text \<open>
  C2, as stated, has the preview present whenever \<open>is_text\<close> holds and the size is at
  most 1,000,000. A text file of two bytes whose preview read raises \<open>PermissionError\<close>
  is yielded with \<open>is_text\<close> true and no preview.
\<close>

theorem preview_absent_counterexample:
  "map (\<lambda>m. (name m, is_text m, size_bytes m \<le> 1000000, preview m))
     (fst (scan \<lparr>root = [''srv''], include_hidden = False, follow_symlinks = False\<rparr>
        (\<lambda>p. if p = [''srv''] then Some (Directory
           [(''notes.txt'', RegFile \<lparr>os_stat = Inr \<lparr>st_size = 2, st_ctime = 0, st_mtime = 0\<rparr>,
                open_rb = Inr [104, 105], open_text = Inl PermissionError\<rparr>)] None) else None)))
   = [(''notes.txt'', True, True, None)]"
  by (simp add: scan_def iter_root_def iter_paths.simps
      is_hidden_iff startswith_def path_to_metadata_def ts_to_dt_def fromtimestamp_def
      DATETIME_MIN_def DATETIME_MAX_def LOCALTIME_MIN_def LOCALTIME_MAX_def
      SMALL_PREVIEW_LIMIT_def safe_read_preview_def looks_like_text_def path_name_def
      except_OSError_def then_gen_def return_gen_def raise_gen_def yield_def joinpath_def Let_def)

text \<open>
  C2, amended. The preview of a record is present if and only if \<open>is_text\<close> is true,
  \<open>size_bytes \<le> 1,000,000\<close> and the preview read succeeds. A preview that is present is
  built from the first 500 characters read from the file, is at most 500 characters long,
  and has its whitespace collapsed to single spaces and trimmed. For every record that
  \<open>scan\<close> yields, a present preview implies \<open>is_text\<close>, the size bound, and this form.
\<close>

theorem preview_when_readable:
  "(path_to_metadata p f = Inr m \<longrightarrow>
      (preview m \<noteq> None \<longleftrightarrow>
         is_text m \<and> size_bytes m \<le> 1000000 \<and> (\<exists>content. open_text f = Inr content))
      \<and> (\<forall>pv. preview m = Some pv \<longrightarrow>
           (\<exists>content. open_text f = Inr content \<and> pv = join '' '' (split (take 500 content)))
           \<and> length pv \<le> 500 \<and> collapsed pv))
   \<and> (\<forall>r \<in> set (fst (scan sc fs)). \<forall>pv. preview r = Some pv \<longrightarrow>
        is_text r \<and> size_bytes r \<le> 1000000 \<and> length pv \<le> 500 \<and> collapsed pv)"
proof -
  have "is_text r \<and> size_bytes r \<le> 1000000 \<and> length pv \<le> 500 \<and> collapsed pv"
    if "r \<in> set (fst (scan sc fs))" and "preview r = Some pv" for r pv
  proof -
    from scan_yields [OF that(1)] obtain q g where "path_to_metadata q g = Inr r" by auto
    from preview_of_metadata [OF this] that(2) show ?thesis by auto
  qed
  with preview_of_metadata [of p f m] show ?thesis by blast
qed

theorem preview_when_readable_witness:
  "path_to_metadata [''srv'', ''notes.txt'']
      (plain_file 14 [32, 104, 101, 108, 108, 111, 10, 10, 119, 111, 114, 108, 100, 10]
         [CHR '' '', CHR ''h'', CHR ''e'', CHR ''l'', CHR ''l'', CHR ''o'', CHR 0x0A, CHR 0x0A,
          CHR ''w'', CHR ''o'', CHR ''r'', CHR ''l'', CHR ''d'', CHR 0x0A])
     = Inr \<lparr>path = ''/srv/notes.txt'', name = ''notes.txt'', parent = ''/srv'',
            extension = ''txt'', size_bytes = 14, created = Datetime 1700000000,
            modified = Datetime 1700000000, is_text = True, preview = Some ''hello world''\<rparr>
   \<and> collapsed ''hello world''"
  using preview_when_readable [where p = "[''srv'', ''notes.txt'']" and f =
      "plain_file 14 [32, 104, 101, 108, 108, 111, 10, 10, 119, 111, 114, 108, 100, 10]
         [CHR '' '', CHR ''h'', CHR ''e'', CHR ''l'', CHR ''l'', CHR ''o'', CHR 0x0A, CHR 0x0A,
          CHR ''w'', CHR ''o'', CHR ''r'', CHR ''l'', CHR ''d'', CHR 0x0A]"
      and m = "\<lparr>path = ''/srv/notes.txt'', name = ''notes.txt'', parent = ''/srv'',
            extension = ''txt'', size_bytes = 14, created = Datetime 1700000000,
            modified = Datetime 1700000000, is_text = True, preview = Some ''hello world''\<rparr>"]
  by (simp add: path_to_metadata_def plain_file_def ts_to_dt_def fromtimestamp_def
      DATETIME_MIN_def DATETIME_MAX_def LOCALTIME_MIN_def LOCALTIME_MAX_def
      SMALL_PREVIEW_LIMIT_def PREVIEW_CHARS_def safe_read_preview_def looks_like_text_def
      extension_of_def path_suffix_def suffix_of_name_def path_name_def path_parent_def
      path_str_def lower_def lower_char_def split_def isspace_def char_of_eq_iff Let_def)

subsection \<open>Exceptions\<close>

text \<open>
  \<open>_iter_paths\<close> never raises, \<open>scan\<close> never raises an \<open>OSError\<close>, and \<open>scan\<close> returns
  normally when \<open>datetime.fromtimestamp\<close> raises no \<open>ValueError\<close> on the timestamps of the
  files it reaches. The constructor fails exactly when nothing exists at the root.
\<close>

lemma iter_returns:
  "snd (iter_paths sc d obj) = None"
  "snd (iter_entries sc d es) = None"
proof (induction sc d obj and sc d es rule: iter_paths_iter_entries.induct)
  case (1 sc directory obj)
  show ?case
  proof (cases "scandir obj")
    case (Inl e)
    then show ?thesis
      by (subst iter_paths.simps) (simp add: snd_except_OSError raise_gen_def)
  next
    case (Inr b)
    obtain es err where b: "b = (es, err)" by (cases b)
    from "1.IH" [OF Inr b [symmetric]]
    have "snd (iter_entries sc directory es) = None" .
    then show ?thesis
      by (subst iter_paths.simps)
        (simp add: Inr b snd_except_OSError snd_then_gen return_gen_def raise_gen_def
          split: option.splits)
  qed
next
  case (2 sc directory)
  show ?case by (simp add: return_gen_def)
next
  case (3 sc directory nm obj es)
  let ?body = "(if \<not> include_hidden sc \<and> is_hidden nm directory then return_gen
           else
             (case is_dir obj (follow_symlinks sc) of
                Inl e \<Rightarrow> raise_gen (OSError e)
              | Inr True \<Rightarrow>
                  (if \<not> follow_symlinks sc \<and> islink obj then return_gen
                   else iter_paths sc (joinpath directory nm) obj)
              | Inr False \<Rightarrow>
                  (case is_file obj (follow_symlinks sc) of
                     Inl e \<Rightarrow> raise_gen (OSError e)
                   | Inr (Some f) \<Rightarrow> yield (joinpath directory nm, f)
                   | Inr None \<Rightarrow> return_gen)))"
  have "snd ?body \<noteq> Some ValueError"
  proof (cases "\<not> (\<not> include_hidden sc \<and> is_hidden nm directory) \<and>
      is_dir obj (follow_symlinks sc) = Inr True \<and> \<not> (\<not> follow_symlinks sc \<and> islink obj)")
    case True
    then have "snd (iter_paths sc (joinpath directory nm) obj) = None"
      by (intro "3.IH"(1)) auto
    with True show ?thesis by auto
  next
    case False
    then show ?thesis
      by (auto simp: return_gen_def raise_gen_def yield_def split: sum.splits option.splits bool.splits)
  qed
  then have "snd (except_OSError ?body) = None" by (rule snd_except_OSError)
  with "3.IH"(2) show ?case by (simp add: snd_then_gen)
qed

lemma iter_root_returns: "snd (iter_root sc fs) = None"
  by (simp add: iter_root_def iter_returns(1) snd_except_OSError raise_gen_def split: option.splits)

lemma scan_paths_raises:
  "snd (scan_paths ps) = None \<or> snd (scan_paths ps) = Some ValueError"
proof (induction ps)
  case Nil
  show ?case by (simp add: return_gen_def)
next
  case (Cons pf ps)
  obtain p f where pf: "pf = (p, f)" by (cases pf)
  let ?one = "case path_to_metadata p f of Inl e \<Rightarrow> raise_gen e | Inr m \<Rightarrow> yield m"
  have "snd (except_OSError ?one) = None \<or> snd (except_OSError ?one) = Some ValueError"
    by (auto simp: except_OSError_def split: option.splits exn.splits)
  with Cons.IH show ?case by (auto simp: pf snd_then_gen)
qed

lemma scan_absorbs_OSError: "snd (scan sc fs) \<noteq> Some (OSError e)"
  using scan_paths_raises [of "fst (iter_root sc fs)"]
  by (auto simp: scan_def Let_def snd_then_gen iter_root_returns return_gen_def)

lemma scan_paths_returns:
  "\<forall>(p, f) \<in> set ps. path_to_metadata p f \<noteq> Inl ValueError \<Longrightarrow> snd (scan_paths ps) = None"
proof (induction ps)
  case Nil
  show ?case by (simp add: return_gen_def)
next
  case (Cons pf ps)
  obtain p f where pf: "pf = (p, f)" by (cases pf)
  let ?one = "case path_to_metadata p f of Inl e \<Rightarrow> raise_gen e | Inr m \<Rightarrow> yield m"
  from Cons.prems have "path_to_metadata p f \<noteq> Inl ValueError" by (simp add: pf)
  then have "snd ?one \<noteq> Some ValueError"
    by (auto simp: raise_gen_def yield_def split: sum.splits)
  then have "snd (except_OSError ?one) = None" by (rule snd_except_OSError)
  with Cons show ?case by (simp add: pf snd_then_gen)
qed

lemma path_to_metadata_ValueError:
  "path_to_metadata p f = Inl ValueError \<longleftrightarrow>
     (\<exists>st. os_stat f = Inr st \<and>
        (ts_to_dt (st_ctime st) = Inl ValueError \<or>
         (\<exists>c. ts_to_dt (st_ctime st) = Inr c) \<and> ts_to_dt (st_mtime st) = Inl ValueError))"
  by (auto simp: path_to_metadata_def Let_def split: sum.splits)

lemma scan_returns:
  assumes "\<forall>(p, f) \<in> set (fst (iter_root sc fs)). \<forall>st. os_stat f = Inr st \<longrightarrow>
      ts_to_dt (st_ctime st) \<noteq> Inl ValueError \<and> ts_to_dt (st_mtime st) \<noteq> Inl ValueError"
  shows "snd (scan sc fs) = None"
proof -
  from assms have "\<forall>(p, f) \<in> set (fst (iter_root sc fs)). path_to_metadata p f \<noteq> Inl ValueError"
    by (auto simp: path_to_metadata_ValueError)
  then have "snd (scan_paths (fst (iter_root sc fs))) = None" by (rule scan_paths_returns)
  then show ?thesis
    by (simp add: scan_def Let_def snd_then_gen iter_root_returns return_gen_def)
qed

lemma FileScanner_init_NotFound:
  "FileScanner_init fs rt hidden follow = Inl (OSError FileNotFoundError) \<longleftrightarrow> fs rt = None"
  "(\<exists>e. FileScanner_init fs rt hidden follow = Inl e) \<longleftrightarrow> fs rt = None"
  "fs rt \<noteq> None \<Longrightarrow> FileScanner_init fs rt hidden follow =
      Inr \<lparr>root = rt, include_hidden = hidden, follow_symlinks = follow\<rparr>"
  by (auto simp: FileScanner_init_def)

text \<open>
  C4 says that after a successful construction \<open>scan\<close> never raises. On the directory
  \<open>shm\<close> the construction succeeds, \<open>scan\<close> yields the record of notes.txt and then raises
  \<open>ValueError\<close>: the modification time of future.txt lies in the year 10001,
  \<open>datetime.fromtimestamp\<close> raises \<open>ValueError\<close> in \<open>path_to_metadata\<close>, and the handler in
  \<open>scan\<close> catches \<open>PermissionError\<close> and \<open>OSError\<close> only. The file later.txt is never reached.
\<close>

theorem scan_raises_ValueError:
  "FileScanner_init shm [''dev'', ''shm''] False False
     = Inr \<lparr>root = [''dev'', ''shm''], include_hidden = False, follow_symlinks = False\<rparr>
   \<and> map name (fst (scan \<lparr>root = [''dev'', ''shm''], include_hidden = False, follow_symlinks = False\<rparr> shm))
       = [''notes.txt'']
   \<and> snd (scan \<lparr>root = [''dev'', ''shm''], include_hidden = False, follow_symlinks = False\<rparr> shm)
       = Some ValueError"
  by (simp add: FileScanner_init_def shm_def plain_file_def scan_def iter_root_def iter_paths.simps
      is_hidden_iff startswith_def path_to_metadata_def ts_to_dt_def fromtimestamp_def
      DATETIME_MIN_def DATETIME_MAX_def LOCALTIME_MIN_def LOCALTIME_MAX_def
      SMALL_PREVIEW_LIMIT_def safe_read_preview_def looks_like_text_def path_name_def
      except_OSError_def then_gen_def return_gen_def raise_gen_def yield_def joinpath_def Let_def)

section \<open>Properties of the record transforms\<close>

subsection \<open>Filters\<close>

text \<open>
  C6. \<open>filter_larger_than\<close> returns exactly the records with
  \<open>size_bytes \<ge> max(0, min_kb) * 1024\<close>. The bound is inclusive: 524288 bytes pass the
  threshold of 512 and 524287 bytes do not. A negative threshold is clamped to zero, and
  then no record of non-negative size is filtered out.
\<close>

theorem filter_larger_than_threshold:
  "filter_larger_than items min_kb = filter (\<lambda>m. max 0 min_kb * 1024 \<le> size_bytes m) items
   \<and> (m \<in> set (filter_larger_than items min_kb) \<longleftrightarrow>
        m \<in> set items \<and> size_bytes m \<ge> max 0 min_kb * 1024)
   \<and> (size_bytes m = 524288 \<longrightarrow> filter_larger_than [m] 512 = [m])
   \<and> (size_bytes m = 524287 \<longrightarrow> filter_larger_than [m] 512 = [])
   \<and> (min_kb < 0 \<and> (\<forall>r \<in> set items. 0 \<le> size_bytes r) \<longrightarrow>
        filter_larger_than items min_kb = items)"
proof -
  have eq: "filter_larger_than items min_kb =
      filter (\<lambda>m. max 0 min_kb * 1024 \<le> size_bytes m) items"
    by (simp add: filter_larger_than_def)
  have neg: "filter_larger_than items min_kb = items"
    if "min_kb < 0" and "\<forall>r \<in> set items. 0 \<le> size_bytes r"
  proof -
    from that(1) have "max 0 min_kb * 1024 = 0" by simp
    with that(2) show ?thesis by (simp add: eq)
  qed
  show ?thesis
    using eq neg by (auto simp: filter_larger_than_def)
qed

theorem filter_larger_than_threshold_witness:
  "filter_larger_than [meta ''a.bin'' ''bin'' 524288 False, meta ''b.bin'' ''bin'' 524287 False] (- 3)
     = [meta ''a.bin'' ''bin'' 524288 False, meta ''b.bin'' ''bin'' 524287 False]
   \<and> filter_larger_than [meta ''a.bin'' ''bin'' 524288 False] 512 = [meta ''a.bin'' ''bin'' 524288 False]
   \<and> filter_larger_than [meta ''b.bin'' ''bin'' 524287 False] 512 = []"
  using filter_larger_than_threshold [of "[meta ''a.bin'' ''bin'' 524288 False, meta ''b.bin'' ''bin'' 524287 False]" "- 3" "meta ''a.bin'' ''bin'' 524288 False"]
    filter_larger_than_threshold [of "[]" 512 "meta ''a.bin'' ''bin'' 524288 False"]
    filter_larger_than_threshold [of "[]" 512 "meta ''b.bin'' ''bin'' 524287 False"]
  by (simp add: meta_def)

text \<open>
  C10. Each of the three filters returns a subsequence of its input: elements of the
  input, unaltered, in their input order, none more often than in the input.
\<close>

theorem filters_subseq:
  "subseq (filter_by_extensions items exts) items
   \<and> subseq (filter_larger_than items min_kb) items
   \<and> subseq (only_text_files items) items"
  by (simp add: filter_by_extensions_def filter_larger_than_def only_text_files_def)

theorem filters_subseq_witness:
  "filter_by_extensions
     [meta ''a.TXT'' ''txt'' 1 True, meta ''b.bin'' ''bin'' 2048 False, meta ''c.md'' ''md'' 3 True]
     [''.MD'', ''txt''] =
     [meta ''a.TXT'' ''txt'' 1 True, meta ''c.md'' ''md'' 3 True]
   \<and> filter_larger_than
     [meta ''a.TXT'' ''txt'' 1 True, meta ''b.bin'' ''bin'' 2048 False, meta ''c.md'' ''md'' 3 True] 2 =
     [meta ''b.bin'' ''bin'' 2048 False]
   \<and> only_text_files
     [meta ''a.TXT'' ''txt'' 1 True, meta ''b.bin'' ''bin'' 2048 False, meta ''c.md'' ''md'' 3 True] =
     [meta ''a.TXT'' ''txt'' 1 True, meta ''c.md'' ''md'' 3 True]
   \<and> subseq [meta ''a.TXT'' ''txt'' 1 True, meta ''c.md'' ''md'' 3 True]
     [meta ''a.TXT'' ''txt'' 1 True, meta ''b.bin'' ''bin'' 2048 False, meta ''c.md'' ''md'' 3 True]"
  using filters_subseq [of
      "[meta ''a.TXT'' ''txt'' 1 True, meta ''b.bin'' ''bin'' 2048 False, meta ''c.md'' ''md'' 3 True]"
      "[''.MD'', ''txt'']" 2]
  by (simp add: filter_by_extensions_def filter_larger_than_def only_text_files_def meta_def
      lower_def lower_char_def lstrip_def char_of_eq_iff char_eq_char_of)

subsection \<open>Counting by extension\<close>

lemma set_first_seen: "set (first_seen xs) = set xs"
  by (induction xs) auto

lemma distinct_first_seen: "distinct (first_seen xs)"
  by (induction xs) (auto simp: distinct_removeAll)

lemma first_seen_snoc:
  "first_seen (xs @ [x]) = (if x \<in> set xs then first_seen xs else first_seen xs @ [x])"
  by (induction xs) auto

lemma dict_get_map:
  "dict_get (map (\<lambda>k. (k, f k)) ks) x dflt = (if x \<in> set ks then f x else dflt)"
  by (induction ks) auto

lemma dict_setitem_map_old:
  "distinct ks \<Longrightarrow> x \<in> set ks \<Longrightarrow>
   dict_setitem (map (\<lambda>k. (k, f k)) ks) x v = map (\<lambda>k. (k, if k = x then v else f k)) ks"
  by (induction ks) auto

lemma dict_setitem_new:
  "k \<notin> fst ` set d \<Longrightarrow> dict_setitem d k v = d @ [(k, v)]"
  by (induction d) auto

lemma Counter_snoc:
  "Counter (xs @ [x]) = dict_setitem (Counter xs) x (dict_get (Counter xs) x 0 + 1)"
  by (simp add: Counter_def)

lemma count_list_snoc:
  "count_list (xs @ [x]) k = (if k = x then count_list xs k + 1 else count_list xs k)"
  by (induction xs) auto

lemma Counter_first_seen:
  "Counter xs = map (\<lambda>k. (k, int (count_list xs k))) (first_seen xs)"
proof (induction xs rule: rev_induct)
  case Nil
  show ?case by (simp add: Counter_def)
next
  case (snoc x xs)
  let ?f = "\<lambda>k. int (count_list xs k)"
  let ?g = "\<lambda>k. int (count_list (xs @ [x]) k)"
  have get: "dict_get (Counter xs) x 0 = ?f x"
    by (simp add: snoc.IH dict_get_map set_first_seen count_list_0_iff)
  have step: "Counter (xs @ [x]) = dict_setitem (Counter xs) x (?f x + 1)"
    by (simp only: Counter_snoc get)
  show ?case
  proof (cases "x \<in> set xs")
    case True
    then have "dict_setitem (Counter xs) x (?f x + 1) =
        map (\<lambda>k. (k, if k = x then ?f x + 1 else ?f k)) (first_seen xs)"
      by (simp add: snoc.IH dict_setitem_map_old distinct_first_seen set_first_seen)
    also have "\<dots> = map (\<lambda>k. (k, ?g k)) (first_seen xs)"
      by (simp add: count_list_snoc)
    finally show ?thesis
      using True by (simp add: step first_seen_snoc)
  next
    case False
    then have "x \<notin> fst ` set (Counter xs)"
      by (simp add: snoc.IH set_first_seen image_image)
    then have "dict_setitem (Counter xs) x (?f x + 1) = Counter xs @ [(x, ?f x + 1)]"
      by (rule dict_setitem_new)
    also have "\<dots> = map (\<lambda>k. (k, ?f k)) (first_seen xs) @ [(x, 1)]"
      using False by (simp add: snoc.IH count_list_0_iff)
    also have "map (\<lambda>k. (k, ?f k)) (first_seen xs) = map (\<lambda>k. (k, ?g k)) (first_seen xs)"
      using False by (intro map_cong) (auto simp: set_first_seen count_list_snoc)
    finally show ?thesis
      using False by (simp add: step first_seen_snoc count_list_snoc count_list_0_iff)
  qed
qed

lemma dict_of_pairs_aux:
  "distinct (map fst (d @ kvs)) \<Longrightarrow> foldl (\<lambda>d (k, v). dict_setitem d k v) d kvs = d @ kvs"
proof (induction kvs arbitrary: d)
  case Nil
  show ?case by simp
next
  case (Cons kv kvs)
  obtain k v where kv: "kv = (k, v)" by (cases kv)
  from Cons.prems have "k \<notin> fst ` set d" by (auto simp: kv)
  then have "dict_setitem d k v = d @ [(k, v)]" by (rule dict_setitem_new)
  moreover from Cons.prems have "distinct (map fst ((d @ [(k, v)]) @ kvs))" by (simp add: kv)
  ultimately show ?case using Cons.IH [of "d @ [(k, v)]"] by (simp add: kv)
qed

lemma dict_of_pairs_distinct:
  "distinct (map fst kvs) \<Longrightarrow> dict_of_pairs kvs = kvs"
  using dict_of_pairs_aux [of "[]" kvs] by (simp add: dict_of_pairs_def)

lemma distinct_fst_most_common:
  "distinct (map fst c) \<Longrightarrow> distinct (map fst (most_common c))"
proof -
  have "mset (map fst (most_common c)) = mset (map fst c)"
    by (simp add: most_common_def sorted_py_def)
  then show "distinct (map fst c) \<Longrightarrow> distinct (map fst (most_common c))"
    by (metis mset_eq_imp_distinct_iff)
qed

lemma distinct_fst_Counter: "distinct (map fst (Counter xs))"
  by (simp add: Counter_first_seen comp_def distinct_first_seen)

lemma count_by_extension_eq:
  "count_by_extension items = most_common (Counter (map extension_or_dash items))"
  by (simp add: count_by_extension_def dict_of_pairs_distinct distinct_fst_most_common
      distinct_fst_Counter)

text \<open>
  C7. The mapping returned by \<open>count_by_extension\<close> lists its keys from the most frequent
  to the least frequent, and the keys that share a count \<open>n\<close> stand in the order in which
  they were first encountered in the input. On the records of a.txt, b.txt and c.md it
  is txt with 2, then md with 1.
\<close>

theorem count_by_extension_order:
  "sorted (rev (map snd (count_by_extension items)))
   \<and> map fst (filter (\<lambda>kv. snd kv = n) (count_by_extension items)) =
       filter (\<lambda>k. int (count_list (map extension_or_dash items) k) = n)
         (first_seen (map extension_or_dash items))
   \<and> count_by_extension
        [meta ''a.txt'' ''txt'' 10 True, meta ''b.txt'' ''txt'' 20 True, meta ''c.md'' ''md'' 30 True]
       = [(''txt'', 2), (''md'', 1)]"
proof -
  let ?keys = "map extension_or_dash items"
  let ?c = "Counter ?keys"
  have res: "count_by_extension items = rev (sort_key snd (rev ?c))"
    by (simp add: count_by_extension_eq most_common_def sorted_py_def)
  have a: "sorted (rev (map snd (count_by_extension items)))"
    by (simp add: res rev_map)
  have "filter (\<lambda>kv. snd kv = n) (count_by_extension items) = filter (\<lambda>kv. snd kv = n) ?c"
    by (simp add: res rev_filter [symmetric] sort_key_stable)
  then have b: "map fst (filter (\<lambda>kv. snd kv = n) (count_by_extension items)) =
      filter (\<lambda>k. int (count_list ?keys k) = n) (first_seen ?keys)"
    by (simp add: Counter_first_seen filter_map comp_def)
  have c: "count_by_extension
        [meta ''a.txt'' ''txt'' 10 True, meta ''b.txt'' ''txt'' 20 True, meta ''c.md'' ''md'' 30 True]
       = [(''txt'', 2), (''md'', 1)]"
    by (simp add: count_by_extension_def Counter_def extension_or_dash_def meta_def
        most_common_def sorted_py_def dict_of_pairs_def)
  from a b c show ?thesis by blast
qed

theorem count_by_extension_order_witness:
  "count_by_extension
     [meta ''a.md'' ''md'' 1 True, meta ''b.txt'' ''txt'' 2 True, meta ''c.py'' ''py'' 3 True,
      meta ''d.txt'' ''txt'' 4 True, meta ''e.md'' ''md'' 5 True, meta ''f.txt'' ''txt'' 6 True,
      meta ''g.py'' ''py'' 7 True, meta ''h.c'' ''c'' 8 True, meta ''i.md'' ''md'' 9 True]
   = [(''md'', 3), (''txt'', 3), (''py'', 2), (''c'', 1)]"
  using count_by_extension_order [of
     "[meta ''a.md'' ''md'' 1 True, meta ''b.txt'' ''txt'' 2 True, meta ''c.py'' ''py'' 3 True,
      meta ''d.txt'' ''txt'' 4 True, meta ''e.md'' ''md'' 5 True, meta ''f.txt'' ''txt'' 6 True,
      meta ''g.py'' ''py'' 7 True, meta ''h.c'' ''c'' 8 True, meta ''i.md'' ''md'' 9 True]" 3]
  by (simp add: count_by_extension_def Counter_def extension_or_dash_def meta_def
        most_common_def sorted_py_def dict_of_pairs_def)

subsection \<open>Sorting\<close>

text \<open>
  C8. For every list of records, key function and value of the \<open>reverse\<close> flag, \<open>sort_by\<close>
  returns the records sorted by the key (descending when \<open>reverse\<close> is set), the records
  of each key \<open>k\<close> in their input order, and the same records as the input. On list
  objects the result is a new object and the input object, like every object already in
  the store, is unchanged.
\<close>

theorem sort_by_stable:
  fixes key_func :: "FileMeta \<Rightarrow> 'k::linorder"
  shows "(if reverse then sorted (rev (map key_func (sort_by items key_func reverse)))
          else sorted (map key_func (sort_by items key_func reverse)))
   \<and> filter (\<lambda>m. key_func m = k) (sort_by items key_func reverse) = filter (\<lambda>m. key_func m = k) items
   \<and> mset (sort_by items key_func reverse) = mset items
   \<and> (a < length h \<longrightarrow>
        (case sort_by_store h a key_func reverse of
           (h', r) \<Rightarrow> r \<noteq> a \<and> r < length h' \<and> h' ! a = h ! a
                     \<and> take (length h) h' = h
                     \<and> h' ! r = sort_by (h ! a) key_func reverse))"
proof -
  have "filter (\<lambda>m. key_func m = k) (rev (sort_key key_func (rev items))) =
        filter (\<lambda>m. key_func m = k) items"
    by (simp add: rev_filter [symmetric] sort_key_stable)
  moreover have "sorted (rev (map key_func (rev (sort_key key_func (rev items)))))"
    by (simp add: rev_map)
  moreover have "case sort_by_store h a key_func reverse of
           (h', r) \<Rightarrow> r \<noteq> a \<and> r < length h' \<and> h' ! a = h ! a
                     \<and> take (length h) h' = h
                     \<and> h' ! r = sort_by (h ! a) key_func reverse"
    if "a < length h"
    using that by (simp add: sort_by_store_def alloc_def nth_append)
  ultimately show ?thesis
    by (simp add: sort_by_def sorted_py_def sort_key_stable)
qed

theorem sort_by_stable_witness:
  "sort_by [meta ''a'' ''x'' 2 True, meta ''b'' ''y'' 1 True, meta ''c'' ''z'' 2 False] size_bytes True
     = [meta ''a'' ''x'' 2 True, meta ''c'' ''z'' 2 False, meta ''b'' ''y'' 1 True]
   \<and> sort_by [meta ''a'' ''x'' 2 True, meta ''b'' ''y'' 1 True, meta ''c'' ''z'' 2 False] size_bytes False
     = [meta ''b'' ''y'' 1 True, meta ''a'' ''x'' 2 True, meta ''c'' ''z'' 2 False]
   \<and> sort_by_store [[meta ''a'' ''x'' 2 True, meta ''b'' ''y'' 1 True]] 0 size_bytes False
     = ([[meta ''a'' ''x'' 2 True, meta ''b'' ''y'' 1 True],
         [meta ''a'' ''x'' 2 True, meta ''b'' ''y'' 1 True],
         [meta ''b'' ''y'' 1 True, meta ''a'' ''x'' 2 True]], 2)"
  using sort_by_stable [where key_func = size_bytes and reverse = True and k = 2 and a = 0
      and items = "[meta ''a'' ''x'' 2 True, meta ''b'' ''y'' 1 True, meta ''c'' ''z'' 2 False]"
      and h = "[[meta ''a'' ''x'' 2 True, meta ''b'' ''y'' 1 True]]"]
  by (simp add: sort_by_def sorted_py_def sort_by_store_def alloc_def meta_def)

subsection \<open>The keys of the count\<close>

lemma map_of_count_by_extension:
  "map_of (count_by_extension items) k =
     (if k \<in> set (map extension_or_dash items)
      then Some (int (count_list (map extension_or_dash items) k)) else None)"
proof -
  let ?keys = "map extension_or_dash items"
  have d1: "distinct (map fst (count_by_extension items))"
    by (simp add: count_by_extension_eq distinct_fst_most_common distinct_fst_Counter)
  have "set (count_by_extension items) = set (Counter ?keys)"
    by (simp add: count_by_extension_eq most_common_def sorted_py_def)
  with d1 have "map_of (count_by_extension items) = map_of (Counter ?keys)"
    by (simp add: map_of_inject_set distinct_fst_Counter)
  then show ?thesis
    by (simp add: Counter_first_seen map_of_map_restrict restrict_map_def set_first_seen)
qed

lemma count_list_filter: "count_list (map f xs) k = length (filter (\<lambda>x. f x = k) xs)"
  by (induction xs) auto

text \<open>
  C3, as stated, puts the records with an empty extension under the empty string. The
  function puts them under \<open>"-"\<close>: on the single record of a file README the result is
  \<open>{"-": 1}\<close> and the empty string is not a key.
\<close>

theorem count_by_extension_empty_key_counterexample:
  "count_by_extension [meta ''README'' [] 10 True] = [(''-'', 1)]
   \<and> map_of (count_by_extension [meta ''README'' [] 10 True]) [] \<noteq> Some 1"
  by (simp add: count_by_extension_def Counter_def extension_or_dash_def meta_def
        most_common_def sorted_py_def dict_of_pairs_def)

text \<open>
  C3, amended. \<open>count_by_extension\<close> keys each record under its extension, and under
  \<open>"-"\<close> when the extension is the empty string, so the empty string is never a key. Its
  keys are distinct and each key is mapped to the exact number of records bearing it;
  \<open>"-"\<close> counts the records whose extension is empty or is \<open>"-"\<close> itself.
\<close>

theorem count_by_extension_keys:
  "distinct (map fst (count_by_extension items))
   \<and> map_of (count_by_extension items) [] = None
   \<and> map_of (count_by_extension items) k =
       (if \<exists>m \<in> set items. extension_or_dash m = k
        then Some (int (length (filter (\<lambda>m. extension_or_dash m = k) items))) else None)
   \<and> (extension_or_dash m = k \<longleftrightarrow>
        (if k = ''-'' then extension m = [] \<or> extension m = ''-''
         else k \<noteq> [] \<and> extension m = k))"
proof -
  have d1: "distinct (map fst (count_by_extension items))"
    by (simp add: count_by_extension_eq distinct_fst_most_common distinct_fst_Counter)
  have "[] \<notin> set (map extension_or_dash items)"
    by (auto simp: extension_or_dash_def)
  then have e: "map_of (count_by_extension items) [] = None"
    by (simp only: map_of_count_by_extension if_False)
  have m: "map_of (count_by_extension items) k =
       (if \<exists>m \<in> set items. extension_or_dash m = k
        then Some (int (length (filter (\<lambda>m. extension_or_dash m = k) items))) else None)"
    by (auto simp: map_of_count_by_extension count_list_filter)
  have x: "extension_or_dash m = k \<longleftrightarrow>
        (if k = ''-'' then extension m = [] \<or> extension m = ''-''
         else k \<noteq> [] \<and> extension m = k)"
    by (auto simp: extension_or_dash_def)
  from d1 e m x show ?thesis by blast
qed

theorem count_by_extension_keys_witness:
  "map_of (count_by_extension
      [meta ''README'' [] 10 True, meta ''a.txt'' ''txt'' 20 True, meta ''LICENSE'' [] 5 True]) ''-''
     = Some 2
   \<and> map_of (count_by_extension
      [meta ''README'' [] 10 True, meta ''a.txt'' ''txt'' 20 True, meta ''LICENSE'' [] 5 True]) ''txt''
     = Some 1"
  using count_by_extension_keys [of
      "[meta ''README'' [] 10 True, meta ''a.txt'' ''txt'' 20 True, meta ''LICENSE'' [] 5 True]" "''-''"
      "meta ''README'' [] 10 True"]
    count_by_extension_keys [of
      "[meta ''README'' [] 10 True, meta ''a.txt'' ''txt'' 20 True, meta ''LICENSE'' [] 5 True]" "''txt''"
      "meta ''a.txt'' ''txt'' 20 True"]
  by (simp add: extension_or_dash_def meta_def)

end
